theory Spec2Isabelle
  imports Complex_Main "HOL-Library.AList"
begin

section \<open>Data model of \<open>ui/main_tab.py\<close>\<close>

text \<open>
  The theory embeds the capture engine of \<open>src/eve_overview_pro/ui/main_tab.py\<close>: the
  class \<open>WindowPreviewWidget\<close> (alert state of one preview) and the class
  \<open>WindowManager\<close> (registry of previews, pending requests, capture timer, the
  capture cycle and its drain loop).

  Python objects are records, mutation is state passing, a Python \<open>dict\<close> whose
  iteration order matters is an association list in insertion order, and every call that
  leaves the object (to the capture system, the alert detector, a widget, the logger, Qt)
  is appended to a trace of events, so that "this callback was not invoked" is a
  statement about the trace.
\<close>

text \<open>
  Modelled from the spec: the enum \<open>AlertLevel\<close> is declared in
  \<open>eve_overview_pro/core/alert_detector.py\<close>, which is not among the sources. The spec
  lists the severities NONE, LOW, MEDIUM and HIGH; the source writes "no alert" as
  Python's \<open>None\<close> (\<open>self.alert_level = None\<close>), so severity NONE is the value
  \<open>None\<close> of \<open>AlertLevel option\<close> and the enum has the three proper levels. A member of
  a Python enum is truthy, \<open>None\<close> is falsy.
\<close>

datatype AlertLevel = LOW | MEDIUM | HIGH

datatype log_level = DEBUG | INFO | WARNING | ERROR

text \<open>Exceptions: the one the source can raise itself, and those raised by collaborators.\<close>

datatype py_error = ZeroDivisionError | AttributeError | Raised string

text \<open>
  Calls leaving the object that makes them. \<open>'img\<close> is the type of captured frames
  (PIL images); a zoom factor is a Python float that is only stored and passed on.
\<close>

datatype 'img event =
    Log log_level
  | CaptureWindowAsync string rat
  | GetResult
  | UpdateFrame string "'img option"
  | AnalyzeFrame string 'img
  | SetAlert string AlertLevel
  | AlertCallback string AlertLevel
  | RegisterCallback string
  | UnregisterCallback string
  | DeleteLater string
  | TimerStart int
  | TimerStop
  | SetPixmap
  | Repaint

subsection \<open>QTimer\<close>

text \<open>
  A \<open>QTimer\<close> is active or not; while active it emits \<open>timeout\<close> every \<open>interval\<close>
  milliseconds, counted from the call of \<open>start\<close>. \<open>remaining\<close> is the time to the next
  timeout.
\<close>

record qtimer =
  active :: bool
  interval :: int
  remaining :: int

definition QTimer :: qtimer where
  "QTimer = \<lparr>active = False, interval = 0, remaining = 0\<rparr>"

definition timer_start :: "int \<Rightarrow> qtimer \<Rightarrow> qtimer" where
  "timer_start msec t = \<lparr>active = True, interval = msec, remaining = msec\<rparr>"

definition timer_stop :: "qtimer \<Rightarrow> qtimer" where
  "timer_stop t = t\<lparr>active := False\<rparr>"

subsection \<open>WindowPreviewWidget\<close>

text \<open>
  The fields of \<open>WindowPreviewWidget.__init__\<close> that the capture engine reads or writes.
  \<open>visible\<close> is Qt's \<open>isVisible()\<close>, set by \<open>setVisible\<close>; \<open>calls\<close> is the trace of the
  widget's own outgoing calls.
\<close>

record ('img, 'pix) WindowPreviewWidget =
  window_id :: string
  character_name :: string
  current_pixmap :: "'pix option"
  alert_level :: "AlertLevel option"
  alert_flash_counter :: int
  zoom_factor :: rat
  visible :: bool
  flash_timer :: qtimer
  calls :: "'img event list"

text \<open>
  \<open>__init__\<close>: no pixmap, no alert, counter 0, zoom 0.3, a stopped flash timer. A Qt
  widget is hidden until it is shown.
\<close>

definition WindowPreviewWidget_init ::
  "string \<Rightarrow> string \<Rightarrow> ('img, 'pix) WindowPreviewWidget" where
  "WindowPreviewWidget_init wid name =
     \<lparr>window_id = wid, character_name = name, current_pixmap = None,
      alert_level = None, alert_flash_counter = 0, zoom_factor = 3 / 10,
      visible = False, flash_timer = QTimer, calls = []\<rparr>"

definition setVisible ::
  "bool \<Rightarrow> ('img, 'pix) WindowPreviewWidget \<Rightarrow> ('img, 'pix) WindowPreviewWidget" where
  "setVisible b w = w\<lparr>visible := b\<rparr>"

text \<open>
  \<open>update_frame(image)\<close>: the whole body is inside \<open>try\<close>. \<open>pil_to_qimage\<close> reads
  \<open>image.mode\<close>, which raises \<open>AttributeError\<close> when the image is \<open>None\<close>; the
  conversion of a real image to a pixmap (PIL and Qt, outside the sources) is the
  parameter \<open>to_pixmap\<close>. Every exception is caught and logged as an error; the pixmap
  is assigned only after the conversion succeeded.
\<close>

definition update_frame ::
  "('img \<Rightarrow> py_error + 'pix) \<Rightarrow> 'img option \<Rightarrow> ('img, 'pix) WindowPreviewWidget
     \<Rightarrow> ('img, 'pix) WindowPreviewWidget" where
  "update_frame to_pixmap img w =
     (case img of
        None \<Rightarrow> w\<lparr>calls := calls w @ [Log ERROR]\<rparr>
      | Some im \<Rightarrow>
          (case to_pixmap im of
             Inl e \<Rightarrow> w\<lparr>calls := calls w @ [Log ERROR]\<rparr>
           | Inr px \<Rightarrow> w\<lparr>current_pixmap := Some px, calls := calls w @ [SetPixmap]\<rparr>))"

text \<open>
  \<open>set_alert(level)\<close>: store the level, set the counter to 30, start the flash timer
  with 100 ms unless it is already active, log at debug level.
\<close>

definition set_alert ::
  "AlertLevel \<Rightarrow> ('img, 'pix) WindowPreviewWidget \<Rightarrow> ('img, 'pix) WindowPreviewWidget" where
  "set_alert level w =
     (let w1 = w\<lparr>alert_level := Some level, alert_flash_counter := 30\<rparr>;
          w2 = (if \<not> active (flash_timer w1)
                then w1\<lparr>flash_timer := timer_start 100 (flash_timer w1),
                        calls := calls w1 @ [TimerStart 100]\<rparr>
                else w1)
      in w2\<lparr>calls := calls w2 @ [Log DEBUG]\<rparr>)"

text \<open>
  \<open>_flash_tick()\<close>: decrement the counter; at zero or below stop the timer and clear
  the level; request a repaint in every case.
\<close>

definition flash_tick ::
  "('img, 'pix) WindowPreviewWidget \<Rightarrow> ('img, 'pix) WindowPreviewWidget" where
  "flash_tick w =
     (let w1 = w\<lparr>alert_flash_counter := alert_flash_counter w - 1\<rparr>;
          w2 = (if alert_flash_counter w1 \<le> 0
                then w1\<lparr>flash_timer := timer_stop (flash_timer w1),
                        alert_level := None,
                        calls := calls w1 @ [TimerStop]\<rparr>
                else w1)
      in w2\<lparr>calls := calls w2 @ [Repaint]\<rparr>)"

text \<open>
  \<open>flash_timer.timeout.connect(self._flash_tick)\<close>: a timeout of the running flash timer
  re-arms the timer with its interval and runs \<open>_flash_tick\<close>; a stopped timer emits
  none. \<open>timeouts n\<close> is the next \<open>n\<close> timeouts with nothing else in between. This
  view has no clock: it says in which order timeouts and calls are served, and nothing
  about when.
\<close>

definition flash_timeout ::
  "('img, 'pix) WindowPreviewWidget \<Rightarrow> ('img, 'pix) WindowPreviewWidget" where
  "flash_timeout w =
     (let t = flash_timer w in
      if active t then flash_tick (w\<lparr>flash_timer := t\<lparr>remaining := interval t\<rparr>\<rparr>) else w)"

primrec timeouts ::
  "nat \<Rightarrow> ('img, 'pix) WindowPreviewWidget \<Rightarrow> ('img, 'pix) WindowPreviewWidget" where
  "timeouts 0 w = w"
| "timeouts (Suc n) w = timeouts n (flash_timeout w)"

text \<open>
  Nominal time for one widget: \<open>elapse_ms\<close> lets one millisecond pass, \<open>elapse n\<close>
  lets \<open>n\<close> of them pass. The clock is ideal: the running flash timer has its timeout
  exactly when the time to it has run out, and a timeout that falls due in a millisecond
  is served in that millisecond, before any call made on the resulting state. Qt's timer
  is coarse and serves a timeout and a call that fall together in either order, so what is
  stated in nominal time is stated for calls that fall between two timeouts, from the
  time that is left to the next one.
\<close>

definition elapse_ms ::
  "('img, 'pix) WindowPreviewWidget \<Rightarrow> ('img, 'pix) WindowPreviewWidget" where
  "elapse_ms w =
     (let t = flash_timer w in
      if \<not> active t then w
      else if remaining t \<le> 1
           then flash_tick (w\<lparr>flash_timer := t\<lparr>remaining := interval t\<rparr>\<rparr>)
           else w\<lparr>flash_timer := t\<lparr>remaining := remaining t - 1\<rparr>\<rparr>)"

primrec elapse ::
  "nat \<Rightarrow> ('img, 'pix) WindowPreviewWidget \<Rightarrow> ('img, 'pix) WindowPreviewWidget" where
  "elapse 0 w = w"
| "elapse (Suc n) w = elapse n (elapse_ms w)"

subsection \<open>Collaborators\<close>

text \<open>
  The capture system and the alert detector are objects of classes that are not among the
  sources. Their states are the abstract values \<open>'b\<close> and \<open>'d\<close> held by the manager, and
  their methods are parameters:
  \<^item> \<open>capture_window_async(window_id, scale)\<close> returns a request id or raises;
  \<^item> \<open>get_result(timeout)\<close> returns a tuple \<open>(request_id, window_id, image)\<close>, with
    \<open>image\<close> possibly \<open>None\<close>, or \<open>None\<close> when no result is available;
  \<^item> \<open>analyze_frame(window_id, image)\<close> returns an alert level or \<open>None\<close>, or raises;
  \<^item> \<open>register_callback\<close> and \<open>unregister_callback\<close> change the detector only;
  \<^item> \<open>to_pixmap\<close> is the conversion used by \<open>update_frame\<close>.
\<close>

record ('b, 'd, 'img, 'pix) collaborators =
  capture_window_async :: "'b \<Rightarrow> string \<Rightarrow> rat \<Rightarrow> (py_error + string) \<times> 'b"
  get_result :: "'b \<Rightarrow> (string \<times> string \<times> 'img option) option \<times> 'b"
  analyze_frame :: "'d \<Rightarrow> string \<Rightarrow> 'img \<Rightarrow> (py_error + AlertLevel option) \<times> 'd"
  register_callback :: "'d \<Rightarrow> string \<Rightarrow> 'd"
  unregister_callback :: "'d \<Rightarrow> string \<Rightarrow> 'd"
  to_pixmap :: "'img \<Rightarrow> py_error + 'pix"

subsection \<open>WindowManager\<close>

text \<open>
  \<open>preview_frames\<close> is the dict \<open>window_id -> widget\<close> in insertion order (the capture
  cycle iterates over it), \<open>pending_requests\<close> the dict \<open>request_id -> window_id\<close>,
  \<open>trace\<close> the calls the manager has made.
\<close>

record ('b, 'd, 'img, 'pix) WindowManager =
  capture_system :: 'b
  alert_detector :: 'd
  preview_frames :: "(string \<times> ('img, 'pix) WindowPreviewWidget) list"
  pending_requests :: "string \<rightharpoonup> string"
  refresh_rate :: int
  capture_timer :: qtimer
  trace :: "'img event list"

definition WindowManager_init :: "'b \<Rightarrow> 'd \<Rightarrow> ('b, 'd, 'img, 'pix) WindowManager" where
  "WindowManager_init cs ad =
     \<lparr>capture_system = cs, alert_detector = ad, preview_frames = [],
      pending_requests = Map.empty, refresh_rate = 30, capture_timer = QTimer,
      trace = [Log INFO]\<rparr>"

text \<open>\<open>window_id in self.preview_frames\<close>\<close>

definition registered :: "('b, 'd, 'img, 'pix) WindowManager \<Rightarrow> string \<Rightarrow> bool" where
  "registered s wid = (wid \<in> set (map fst (preview_frames s)))"

text \<open>\<open>get_active_window_count()\<close>\<close>

definition get_active_window_count :: "('b, 'd, 'img, 'pix) WindowManager \<Rightarrow> nat" where
  "get_active_window_count s = length (preview_frames s)"

text \<open>
  \<open>start_capture_loop()\<close>: \<open>interval = 1000 // self.refresh_rate\<close>, Python's floor
  division, which raises on a zero divisor; then \<open>capture_timer.start(interval)\<close>.
\<close>

definition start_capture_loop ::
  "('b, 'd, 'img, 'pix) WindowManager \<Rightarrow> py_error + ('b, 'd, 'img, 'pix) WindowManager" where
  "start_capture_loop s =
     (if refresh_rate s = 0 then Inl ZeroDivisionError
      else let ms = 1000 div refresh_rate s
           in Inr (s\<lparr>capture_timer := timer_start ms (capture_timer s),
                     trace := trace s @ [TimerStart ms, Log INFO]\<rparr>))"

definition stop_capture_loop ::
  "('b, 'd, 'img, 'pix) WindowManager \<Rightarrow> ('b, 'd, 'img, 'pix) WindowManager" where
  "stop_capture_loop s =
     s\<lparr>capture_timer := timer_stop (capture_timer s),
       trace := trace s @ [TimerStop, Log INFO]\<rparr>"

text \<open>
  \<open>set_refresh_rate(fps)\<close>: \<open>self.refresh_rate = max(1, min(60, fps))\<close>; a running
  capture loop is stopped and started again.
\<close>

definition set_refresh_rate ::
  "int \<Rightarrow> ('b, 'd, 'img, 'pix) WindowManager
     \<Rightarrow> py_error + ('b, 'd, 'img, 'pix) WindowManager" where
  "set_refresh_rate fps s =
     (let s1 = s\<lparr>refresh_rate := max 1 (min 60 fps)\<rparr>
      in if active (capture_timer s1)
         then start_capture_loop (stop_capture_loop s1)
         else Inr s1)"

text \<open>
  \<open>add_window(window_id, character_name)\<close>: an id already in \<open>preview_frames\<close> is
  answered with a warning and \<open>None\<close>; otherwise a new widget is stored under the id and
  \<open>alert_callback\<close> is registered with the alert detector for it.
\<close>

definition add_window ::
  "('b, 'd, 'img, 'pix) collaborators \<Rightarrow> string \<Rightarrow> string
     \<Rightarrow> ('b, 'd, 'img, 'pix) WindowManager
     \<Rightarrow> ('img, 'pix) WindowPreviewWidget option \<times> ('b, 'd, 'img, 'pix) WindowManager" where
  "add_window C wid name s =
     (if registered s wid
      then (None, s\<lparr>trace := trace s @ [Log WARNING]\<rparr>)
      else let frame = WindowPreviewWidget_init wid name;
               s1 = s\<lparr>preview_frames := AList.update wid frame (preview_frames s)\<rparr>;
               s2 = s1\<lparr>alert_detector := register_callback C (alert_detector s1) wid,
                       trace := trace s1 @ [RegisterCallback wid]\<rparr>
           in (Some frame, s2\<lparr>trace := trace s2 @ [Log INFO]\<rparr>))"

text \<open>
  The closure \<open>alert_callback(level)\<close> that \<open>add_window\<close> registers for \<open>window_id\<close>:
  it looks the id up again when it is called. The trace records the call of the closure
  itself, made by the alert detector.
\<close>

definition alert_callback ::
  "string \<Rightarrow> AlertLevel \<Rightarrow> ('b, 'd, 'img, 'pix) WindowManager
     \<Rightarrow> ('b, 'd, 'img, 'pix) WindowManager" where
  "alert_callback wid level s =
     (let s0 = s\<lparr>trace := trace s @ [AlertCallback wid level]\<rparr>
      in if registered s0 wid
         then s0\<lparr>preview_frames := AList.map_entry wid (set_alert level) (preview_frames s0),
                 trace := trace s0 @ [SetAlert wid level]\<rparr>
         else s0)"

text \<open>
  \<open>remove_window(window_id)\<close>: for a registered id, unregister the alert callback, pop
  the widget and schedule its deletion; nothing at all for any other id. The pending
  requests are not touched.
\<close>

definition remove_window ::
  "('b, 'd, 'img, 'pix) collaborators \<Rightarrow> string \<Rightarrow> ('b, 'd, 'img, 'pix) WindowManager
     \<Rightarrow> ('b, 'd, 'img, 'pix) WindowManager" where
  "remove_window C wid s =
     (if registered s wid
      then s\<lparr>alert_detector := unregister_callback C (alert_detector s) wid,
             preview_frames := AList.delete wid (preview_frames s),
             trace := trace s @ [UnregisterCallback wid, DeleteLater wid, Log INFO]\<rparr>
      else s)"

text \<open>
  The body of the \<open>for\<close> loop of \<open>_capture_cycle\<close> for one item of \<open>preview_frames\<close>: a
  visible frame is submitted with its zoom factor; the request id is stored with a plain
  dict assignment; an exception of the capture system is logged and the loop goes on.
\<close>

definition request_capture ::
  "('b, 'd, 'img, 'pix) collaborators \<Rightarrow> string \<times> ('img, 'pix) WindowPreviewWidget
     \<Rightarrow> ('b, 'd, 'img, 'pix) WindowManager \<Rightarrow> ('b, 'd, 'img, 'pix) WindowManager" where
  "request_capture C item s =
     (let wid = fst item; frame = snd item in
      if visible frame
      then (case capture_window_async C (capture_system s) wid (zoom_factor frame) of
              (Inr request_id, b) \<Rightarrow>
                s\<lparr>capture_system := b,
                  pending_requests := (pending_requests s)(request_id \<mapsto> wid),
                  trace := trace s @ [CaptureWindowAsync wid (zoom_factor frame)]\<rparr>
            | (Inl e, b) \<Rightarrow>
                s\<lparr>capture_system := b,
                  trace := trace s @ [CaptureWindowAsync wid (zoom_factor frame), Log ERROR]\<rparr>)
      else s)"

definition request_captures ::
  "('b, 'd, 'img, 'pix) collaborators \<Rightarrow> ('b, 'd, 'img, 'pix) WindowManager
     \<Rightarrow> ('b, 'd, 'img, 'pix) WindowManager" where
  "request_captures C s = fold (request_capture C) (preview_frames s) s"

text \<open>
  The body of the \<open>while\<close> loop of \<open>_process_capture_results\<close> for one result tuple
  \<open>(request_id, window_id, image)\<close>. Only a registered window id is served: its widget
  gets the frame, a frame that is not \<open>None\<close> is analysed, and a level that comes back is
  set on the widget; an exception of the detector is caught and logged. The request id is
  popped from the pending requests in every case, with a default, so a missing id is no
  error.
\<close>

definition process_result ::
  "('b, 'd, 'img, 'pix) collaborators \<Rightarrow> string \<times> string \<times> 'img option
     \<Rightarrow> ('b, 'd, 'img, 'pix) WindowManager \<Rightarrow> ('b, 'd, 'img, 'pix) WindowManager" where
  "process_result C result s =
     (let request_id = fst result; wid = fst (snd result); img = snd (snd result);
          s1 = (if registered s wid
                then
                  (let s2 = s\<lparr>preview_frames :=
                                 AList.map_entry wid (update_frame (to_pixmap C) img)
                                   (preview_frames s),
                               trace := trace s @ [UpdateFrame wid img]\<rparr>
                   in case img of
                        None \<Rightarrow> s2
                      | Some im \<Rightarrow>
                          (case analyze_frame C (alert_detector s2) wid im of
                             (Inl e, d) \<Rightarrow>
                               s2\<lparr>alert_detector := d,
                                  trace := trace s2 @ [AnalyzeFrame wid im, Log ERROR]\<rparr>
                           | (Inr None, d) \<Rightarrow>
                               s2\<lparr>alert_detector := d,
                                  trace := trace s2 @ [AnalyzeFrame wid im]\<rparr>
                           | (Inr (Some level), d) \<Rightarrow>
                               s2\<lparr>alert_detector := d,
                                  preview_frames :=
                                    AList.map_entry wid (set_alert level) (preview_frames s2),
                                  trace := trace s2 @ [AnalyzeFrame wid im, SetAlert wid level]\<rparr>))
                else s)
      in s1\<lparr>pending_requests := (pending_requests s1)(request_id := None)\<rparr>)"

text \<open>
  \<open>_process_capture_results()\<close>: \<open>while True\<close>, poll, leave the loop at the first
  \<open>None\<close>, otherwise count and process the result. The loop ends only if the capture
  system eventually has no result, so the function is partial: \<open>None\<close> is "does not
  return". After the loop a debug line is logged when something was processed.
\<close>

partial_function (option) drain ::
  "('b, 'd, 'img, 'pix) collaborators \<Rightarrow> nat \<Rightarrow> ('b, 'd, 'img, 'pix) WindowManager
     \<Rightarrow> ('b, 'd, 'img, 'pix) WindowManager option" where
  "drain C processed s =
     (case get_result C (capture_system s) of
        (r, b) \<Rightarrow>
          (let s1 = s\<lparr>capture_system := b, trace := trace s @ [GetResult]\<rparr>
           in case r of
                None \<Rightarrow>
                  Some (if processed > 0 then s1\<lparr>trace := trace s1 @ [Log DEBUG]\<rparr> else s1)
              | Some result \<Rightarrow> drain C (processed + 1) (process_result C result s1)))"

declare drain.simps [code]

definition process_capture_results ::
  "('b, 'd, 'img, 'pix) collaborators \<Rightarrow> ('b, 'd, 'img, 'pix) WindowManager
     \<Rightarrow> ('b, 'd, 'img, 'pix) WindowManager option" where
  "process_capture_results C s = drain C 0 s"

text \<open>\<open>_capture_cycle()\<close>, the slot of the capture timer: submit, then drain.\<close>

definition capture_cycle ::
  "('b, 'd, 'img, 'pix) collaborators \<Rightarrow> ('b, 'd, 'img, 'pix) WindowManager
     \<Rightarrow> ('b, 'd, 'img, 'pix) WindowManager option" where
  "capture_cycle C s = process_capture_results C (request_captures C s)"

subsection \<open>Starting the scheduler at a rate\<close>

text \<open>
  The spec's \<open>start(rate_hz)\<close> is \<open>set_refresh_rate(rate_hz)\<close> followed by
  \<open>start_capture_loop()\<close>; \<open>tick_interval\<close> reads the interval of the running capture
  timer off the outcome.
\<close>

definition start ::
  "int \<Rightarrow> ('b, 'd, 'img, 'pix) WindowManager
     \<Rightarrow> py_error + ('b, 'd, 'img, 'pix) WindowManager" where
  "start rate_hz s =
     (case set_refresh_rate rate_hz s of Inl e \<Rightarrow> Inl e | Inr s1 \<Rightarrow> start_capture_loop s1)"

definition tick_interval ::
  "py_error + ('b, 'd, 'img, 'pix) WindowManager \<Rightarrow> int option" where
  "tick_interval r =
     (case r of
        Inl e \<Rightarrow> None
      | Inr s \<Rightarrow> if active (capture_timer s) then Some (interval (capture_timer s)) else None)"

text \<open>
  The interval in the spec's words: \<open>round(1000 / rate_hz)\<close> of the clamped rate, the
  nearest integer to the quotient, a tie going to the even neighbour as Python's \<open>round\<close>
  does.
\<close>

definition spec_round_div :: "int \<Rightarrow> int \<Rightarrow> int" where
  "spec_round_div a b =
     (let q = a div b; r = a mod b
      in if 2 * r < b then q else if b < 2 * r then q + 1 else if even q then q else q + 1)"

definition spec_tick_interval :: "int \<Rightarrow> int" where
  "spec_tick_interval rate_hz = spec_round_div 1000 (max 1 (min 60 rate_hz))"


subsection \<open>The alert state machine in time\<close>

text \<open>
  The time until the flash timer of a widget stops: the timeouts still to come after the
  next one, and the time to the next one.
\<close>

definition alert_ms_left :: "('img, 'pix) WindowPreviewWidget \<Rightarrow> int" where
  "alert_ms_left w =
     (if active (flash_timer w)
      then (alert_flash_counter w - 1) * interval (flash_timer w) + remaining (flash_timer w)
      else 0)"

text \<open>
  What holds of every widget the methods above produce from a new one: a running flash
  timer has the interval 100, between 1 and 100 ms to go, and a positive counter.
\<close>

definition flash_ok :: "('img, 'pix) WindowPreviewWidget \<Rightarrow> bool" where
  "flash_ok w =
     (\<not> active (flash_timer w) \<or>
      (interval (flash_timer w) = 100 \<and> 1 \<le> remaining (flash_timer w) \<and>
       remaining (flash_timer w) \<le> 100 \<and> 1 \<le> alert_flash_counter w))"

text \<open>Events that deliver an alert to a consumer.\<close>

fun is_alert_callback :: "'img event \<Rightarrow> bool" where
  "is_alert_callback (AlertCallback wid level) = True"
| "is_alert_callback (SetAlert wid level) = True"
| "is_alert_callback e = False"

text \<open>A new widget, for concrete runs.\<close>

definition widget0 :: "(nat, nat) WindowPreviewWidget" where
  "widget0 = WindowPreviewWidget_init ''w1'' ''pilot''"

subsection \<open>Reading traces\<close>

text \<open>The calls a widget made between two of its states, and a manager likewise.\<close>

definition calls_between ::
  "('img, 'pix) WindowPreviewWidget \<Rightarrow> ('img, 'pix) WindowPreviewWidget \<Rightarrow> 'img event list" where
  "calls_between w w' = drop (length (calls w)) (calls w')"

definition new_events ::
  "('b, 'd, 'img, 'pix) WindowManager \<Rightarrow> ('b, 'd, 'img, 'pix) WindowManager
     \<Rightarrow> 'img event list" where
  "new_events s s' = drop (length (trace s)) (trace s')"

text \<open>The window a call is about, if any.\<close>

fun event_window :: "'img event \<Rightarrow> string option" where
  "event_window (CaptureWindowAsync wid z) = Some wid"
| "event_window (UpdateFrame wid img) = Some wid"
| "event_window (AnalyzeFrame wid im) = Some wid"
| "event_window (SetAlert wid level) = Some wid"
| "event_window (AlertCallback wid level) = Some wid"
| "event_window (RegisterCallback wid) = Some wid"
| "event_window (UnregisterCallback wid) = Some wid"
| "event_window (DeleteLater wid) = Some wid"
| "event_window e = None"

text \<open>The submissions to the capture system in a trace, in order.\<close>

fun submissions :: "'img event list \<Rightarrow> (string \<times> rat) list" where
  "submissions [] = []"
| "submissions (CaptureWindowAsync wid z # es) = (wid, z) # submissions es"
| "submissions (e # es) = submissions es"

text \<open>
  A capture system that has exactly \<open>k\<close> results queued: \<open>k\<close> polls return a result and
  the next one returns \<open>None\<close>.
\<close>

primrec queued :: "('b, 'd, 'img, 'pix) collaborators \<Rightarrow> nat \<Rightarrow> 'b \<Rightarrow> bool" where
  "queued C 0 b = (fst (get_result C b) = None)"
| "queued C (Suc k) b =
     (case fst (get_result C b) of
        None \<Rightarrow> False
      | Some r \<Rightarrow> queued C k (snd (get_result C b)))"

text \<open>The frame of a result was handed to the widget of its window.\<close>

definition delivered ::
  "('b, 'd, 'img, 'pix) collaborators \<Rightarrow> string \<times> string \<times> 'img option
     \<Rightarrow> ('b, 'd, 'img, 'pix) WindowManager \<Rightarrow> bool" where
  "delivered C result s =
     (UpdateFrame (fst (snd result)) (snd (snd result))
        \<in> set (new_events s (process_result C result s)))"

subsection \<open>The drain loop unrolled\<close>

text \<open>
  The calls that \<open>process_result\<close> makes, and the drain loop cut off after \<open>k + 1\<close>
  polls together with the calls it makes. They serve the proofs: the loop over a capture
  system with \<open>k\<close> queued results is this unrolling.
\<close>

definition result_events ::
  "('b, 'd, 'img, 'pix) collaborators \<Rightarrow> string \<times> string \<times> 'img option
     \<Rightarrow> ('b, 'd, 'img, 'pix) WindowManager \<Rightarrow> 'img event list" where
  "result_events C result s =
     (let wid = fst (snd result); img = snd (snd result) in
      if registered s wid
      then UpdateFrame wid img #
           (case img of
              None \<Rightarrow> []
            | Some im \<Rightarrow>
                AnalyzeFrame wid im #
                (case fst (analyze_frame C (alert_detector s) wid im) of
                   Inl e \<Rightarrow> [Log ERROR]
                 | Inr None \<Rightarrow> []
                 | Inr (Some level) \<Rightarrow> [SetAlert wid level]))
      else [])"

definition polled ::
  "('b, 'd, 'img, 'pix) collaborators \<Rightarrow> ('b, 'd, 'img, 'pix) WindowManager
     \<Rightarrow> ('b, 'd, 'img, 'pix) WindowManager" where
  "polled C s = s\<lparr>capture_system := snd (get_result C (capture_system s)),
                  trace := trace s @ [GetResult]\<rparr>"

primrec drain_upto ::
  "('b, 'd, 'img, 'pix) collaborators \<Rightarrow> nat \<Rightarrow> nat \<Rightarrow> ('b, 'd, 'img, 'pix) WindowManager
     \<Rightarrow> ('b, 'd, 'img, 'pix) WindowManager" where
  "drain_upto C 0 processed s =
     (if processed > 0 then (polled C s)\<lparr>trace := trace (polled C s) @ [Log DEBUG]\<rparr>
      else polled C s)"
| "drain_upto C (Suc k) processed s =
     (case fst (get_result C (capture_system s)) of
        None \<Rightarrow>
          (if processed > 0 then (polled C s)\<lparr>trace := trace (polled C s) @ [Log DEBUG]\<rparr>
           else polled C s)
      | Some result \<Rightarrow> drain_upto C k (processed + 1) (process_result C result (polled C s)))"

primrec drain_events ::
  "('b, 'd, 'img, 'pix) collaborators \<Rightarrow> nat \<Rightarrow> nat \<Rightarrow> ('b, 'd, 'img, 'pix) WindowManager
     \<Rightarrow> 'img event list" where
  "drain_events C 0 processed s = GetResult # (if processed > 0 then [Log DEBUG] else [])"
| "drain_events C (Suc k) processed s =
     GetResult #
     (case fst (get_result C (capture_system s)) of
        None \<Rightarrow> (if processed > 0 then [Log DEBUG] else [])
      | Some result \<Rightarrow>
          result_events C result (polled C s) @
          drain_events C k (processed + 1) (process_result C result (polled C s)))"

subsection \<open>Concrete collaborators\<close>

text \<open>
  For concrete runs: a capture system that hands out the request ids of a list (and raises
  when the list is used up) and returns the results of a queue; frames are numbers; a
  detector that remembers the registered ids and reads the level off the frame (0 none,
  1 LOW, 2 MEDIUM, 3 HIGH, anything else raises).
\<close>

type_synonym test_backend = "string list \<times> (string \<times> string \<times> nat option) list"

definition test_collab :: "(test_backend, string list, nat, nat) collaborators" where
  "test_collab =
     \<lparr>capture_window_async =
        (\<lambda>b wid z. case fst b of
                      [] \<Rightarrow> (Inl (Raised ''saturated''), b)
                    | r # rs \<Rightarrow> (Inr r, (rs, snd b))),
      get_result =
        (\<lambda>b. case snd b of [] \<Rightarrow> (None, b) | x # xs \<Rightarrow> (Some x, (fst b, xs))),
      analyze_frame =
        (\<lambda>d wid im.
           (if im = 0 then Inr None
            else if im = 1 then Inr (Some LOW)
            else if im = 2 then Inr (Some MEDIUM)
            else if im = 3 then Inr (Some HIGH)
            else Inl (Raised ''analysis failed''), d)),
      register_callback = (\<lambda>d wid. d @ [wid]),
      unregister_callback = (\<lambda>d wid. removeAll wid d),
      to_pixmap = (\<lambda>im. Inr im)\<rparr>"

definition test_manager ::
  "string list \<Rightarrow> (string \<times> string \<times> nat option) list
     \<Rightarrow> (test_backend, string list, nat, nat) WindowManager" where
  "test_manager ids results = WindowManager_init (ids, results) []"

text \<open>Qt shows or hides the widget of a window (\<open>frame.setVisible\<close> in \<open>MainTab\<close>).\<close>

definition show_window ::
  "string \<Rightarrow> bool \<Rightarrow> ('b, 'd, 'img, 'pix) WindowManager \<Rightarrow> ('b, 'd, 'img, 'pix) WindowManager" where
  "show_window wid b s =
     s\<lparr>preview_frames := AList.map_entry wid (setVisible b) (preview_frames s)\<rparr>"

text \<open>Two windows added in turn, \<open>w1\<close> visible and \<open>w2\<close> hidden.\<close>

definition two_windows ::
  "string list \<Rightarrow> (string \<times> string \<times> nat option) list
     \<Rightarrow> (test_backend, string list, nat, nat) WindowManager" where
  "two_windows ids results =
     show_window ''w1'' True
       (snd (add_window test_collab ''w2'' ''pilot2''
          (snd (add_window test_collab ''w1'' ''pilot1'' (test_manager ids results)))))"

text \<open>A registered window whose widget is visible.\<close>

definition marked_visible :: "('b, 'd, 'img, 'pix) WindowManager \<Rightarrow> string \<Rightarrow> bool" where
  "marked_visible s wid =
     (case map_of (preview_frames s) wid of None \<Rightarrow> False | Some w \<Rightarrow> visible w)"

text \<open>
  Both windows with a request recorded as pending and the two results already queued in
  the capture system.
\<close>

definition in_flight :: "(test_backend, string list, nat, nat) WindowManager" where
  "in_flight =
     (two_windows [] [(''r1'', ''w1'', Some 3), (''r2'', ''w2'', Some 2)])
       \<lparr>pending_requests := [''r1'' \<mapsto> ''w1'', ''r2'' \<mapsto> ''w2'']\<rparr>"

text \<open>Both windows visible, over a capture system that hands out the id \<open>r1\<close> twice.\<close>

definition both_visible :: "(test_backend, string list, nat, nat) WindowManager" where
  "both_visible = show_window ''w2'' True (two_windows [''r1'', ''r1''] [])"

text \<open>A new manager over the concrete collaborators.\<close>

definition manager0 :: "(test_backend, string list, nat, nat) WindowManager" where
  "manager0 = test_manager [] []"

section \<open>Properties\<close>

subsection \<open>Tick interval\<close>

lemma clamp_rate_nonzero: "max 1 (min 60 (fps::int)) \<noteq> 0"
  by simp

lemma start_returns:
  "start fps s =
     Inr (s\<lparr>refresh_rate := max 1 (min 60 fps),
            capture_timer := timer_start (1000 div max 1 (min 60 fps)) (capture_timer s),
            trace := trace s @
              (if active (capture_timer s)
               then [TimerStop, Log INFO, TimerStart (1000 div max 1 (min 60 fps)), Log INFO]
               else []) @
              [TimerStart (1000 div max 1 (min 60 fps)), Log INFO]\<rparr>)"
  by (simp add: clamp_rate_nonzero start_def set_refresh_rate_def start_capture_loop_def
      stop_capture_loop_def Let_def timer_start_def timer_stop_def)

lemma tick_interval_start:
  "tick_interval (start fps s) = Some (1000 div max 1 (min 60 fps))"
  by (simp add: start_returns tick_interval_def timer_start_def)

lemma floor_div_bounds:
  assumes "0 < (r::int)"
  shows "1000 div r * r \<le> 1000" and "1000 < (1000 div r + 1) * r"
proof -
  have a: "1000 div r * r + 1000 mod r = 1000" by simp
  have b: "0 \<le> 1000 mod r" "1000 mod r < r" using assms by simp_all
  have c: "(1000 div r + 1) * r = 1000 div r * r + r" by (simp add: algebra_simps)
  show "1000 div r * r \<le> 1000" using a b by linarith
  show "1000 < (1000 div r + 1) * r" using a b c by linarith
qed

lemma spec_round_div_bounds:
  "1000 div r \<le> spec_round_div 1000 r \<and> spec_round_div 1000 r \<le> 1000 div r + 1"
  by (simp add: spec_round_div_def Let_def)

text \<open>
  C1, as the spec states it, fails: at 6 Hz the quotient is 166.67, which rounds to 167,
  and the capture timer is started with 166.
\<close>

theorem C1_round_counterexample:
  "tick_interval (start 6 manager0) = Some 166 \<and> spec_tick_interval 6 = 167"
  by (simp add: tick_interval_start spec_tick_interval_def spec_round_div_def Let_def)

text \<open>
  C1, amended: for every requested rate, starting the scheduler returns without an
  exception and leaves the capture timer running with the interval
  \<open>1000 // r\<close>, the quotient rounded down, where \<open>r\<close> is the rate clamped to
  \<open>[1, 60]\<close>: it is the largest integer \<open>i\<close> with \<open>i * r \<le> 1000\<close>. It is the rounded
  quotient of the spec or one less.
\<close>

theorem C1_tick_interval_floor:
  "tick_interval (start fps s) = Some (1000 div max 1 (min 60 fps)) \<and>
   1 \<le> max 1 (min 60 fps) \<and> max 1 (min 60 fps) \<le> 60 \<and>
   1000 div max 1 (min 60 fps) * max 1 (min 60 fps) \<le> 1000 \<and>
   1000 < (1000 div max 1 (min 60 fps) + 1) * max 1 (min 60 fps) \<and>
   1000 div max 1 (min 60 fps) \<le> spec_tick_interval fps \<and>
   spec_tick_interval fps \<le> 1000 div max 1 (min 60 fps) + 1"
proof -
  have pos: "0 < max 1 (min 60 fps)" by simp
  show ?thesis
    using floor_div_bounds [OF pos] spec_round_div_bounds [of "max 1 (min 60 fps)"]
    by (simp add: tick_interval_start spec_tick_interval_def)
qed

subsection \<open>Alert state machine\<close>

lemma elapse_ms_step:
  assumes "flash_ok w" "active (flash_timer w)"
  shows "flash_ok (elapse_ms w)"
    and "alert_ms_left (elapse_ms w) = alert_ms_left w - 1"
    and "active (flash_timer (elapse_ms w)) = (alert_ms_left w \<noteq> 1)"
    and "alert_level (elapse_ms w) = (if alert_ms_left w = 1 then None else alert_level w)"
  using assms
  by (auto simp: flash_ok_def alert_ms_left_def elapse_ms_def flash_tick_def Let_def
      timer_stop_def algebra_simps)

lemma elapse_inactive: "\<not> active (flash_timer w) \<Longrightarrow> elapse d w = w"
  by (induction d arbitrary: w) (simp_all add: elapse_ms_def)

lemma elapse_Suc_right: "elapse (Suc k) w = elapse_ms (elapse k w)"
  by (induction k arbitrary: w) simp_all

text \<open>Before the time is up the level stays, and the time left goes down with the clock.\<close>

lemma elapse_before:
  "flash_ok w \<Longrightarrow> active (flash_timer w) \<Longrightarrow> int d < alert_ms_left w \<Longrightarrow>
     flash_ok (elapse d w) \<and> active (flash_timer (elapse d w)) \<and>
     alert_level (elapse d w) = alert_level w \<and>
     alert_ms_left (elapse d w) = alert_ms_left w - int d"
proof (induction d arbitrary: w)
  case 0
  then show ?case by simp
next
  case (Suc d)
  have ne: "alert_ms_left w \<noteq> 1" using Suc.prems by simp
  have st: "flash_ok (elapse_ms w)" "active (flash_timer (elapse_ms w))"
    "alert_ms_left (elapse_ms w) = alert_ms_left w - 1"
    "alert_level (elapse_ms w) = alert_level w"
    using elapse_ms_step [OF Suc.prems(1,2)] ne by simp_all
  have "int d < alert_ms_left (elapse_ms w)" using Suc.prems(3) st(3) by simp
  from Suc.IH [OF st(1,2) this] show ?case using st by simp
qed

text \<open>When the time is up the level is cleared and the timer stopped.\<close>

lemma elapse_expiry:
  assumes "flash_ok w" "active (flash_timer w)" "int d = alert_ms_left w"
  shows "alert_level (elapse d w) = None \<and> \<not> active (flash_timer (elapse d w))"
proof -
  have pos: "1 \<le> alert_ms_left w"
    using assms(1,2) by (auto simp: flash_ok_def alert_ms_left_def)
  then obtain k where d: "d = Suc k" using assms(3) by (cases d) simp_all
  have k: "int k < alert_ms_left w" using d assms(3) by simp
  let ?v = "elapse k w"
  have v: "flash_ok ?v" "active (flash_timer ?v)" "alert_ms_left ?v = 1"
    using elapse_before [OF assms(1,2) k] d assms(3) by simp_all
  show ?thesis
    using elapse_ms_step [OF v(1,2)] v(3) unfolding d elapse_Suc_right by simp
qed

lemma set_alert_facts:
  "alert_level (set_alert L w) = Some L"
  "alert_flash_counter (set_alert L w) = 30"
  "active (flash_timer (set_alert L w))"
  by (simp_all add: set_alert_def Let_def timer_start_def)

lemma set_alert_ok: "flash_ok w \<Longrightarrow> flash_ok (set_alert L w)"
  by (auto simp: set_alert_def Let_def timer_start_def flash_ok_def)

lemma set_alert_ms_left:
  "flash_ok w \<Longrightarrow>
     alert_ms_left (set_alert L w) =
       2900 + (if active (flash_timer w) then remaining (flash_timer w) else 100)"
  by (auto simp: set_alert_def Let_def timer_start_def flash_ok_def alert_ms_left_def)

text \<open>
  A trigger does not restart the running flash timer, so the alert ends on a timeout of
  the timer that the first trigger started: 2900 ms after the next timeout. That is 3000 ms
  after a trigger that falls on a timeout (or finds the timer stopped), and less after
  one that falls between two timeouts.
\<close>

lemma retrigger_window:
  assumes "flash_ok w" "active (flash_timer w)"
  shows "int d < 2900 + remaining (flash_timer w) \<Longrightarrow>
           alert_level (elapse d (set_alert L w)) = Some L"
    and "int d = 2900 + remaining (flash_timer w) \<Longrightarrow>
           alert_level (elapse d (set_alert L w)) = None"
proof -
  have ok: "flash_ok (set_alert L w)" "active (flash_timer (set_alert L w))"
    "alert_ms_left (set_alert L w) = 2900 + remaining (flash_timer w)"
    using assms by (simp_all add: set_alert_ok set_alert_facts set_alert_ms_left)
  show "int d < 2900 + remaining (flash_timer w) \<Longrightarrow>
          alert_level (elapse d (set_alert L w)) = Some L"
    using elapse_before [OF ok(1,2), of d] ok(3) by (simp add: set_alert_facts)
  show "int d = 2900 + remaining (flash_timer w) \<Longrightarrow>
          alert_level (elapse d (set_alert L w)) = None"
    using elapse_expiry [OF ok(1,2), of d] ok(3) by simp
qed

text \<open>The passing of time makes a widget deliver no alert.\<close>

lemma flash_tick_callbacks:
  "filter is_alert_callback (calls (flash_tick w)) = filter is_alert_callback (calls w)"
  by (simp add: flash_tick_def Let_def)

lemma elapse_ms_callbacks:
  "filter is_alert_callback (calls (elapse_ms w)) = filter is_alert_callback (calls w)"
  by (simp add: elapse_ms_def Let_def flash_tick_callbacks)

lemma elapse_callbacks:
  "filter is_alert_callback (calls (elapse d w)) = filter is_alert_callback (calls w)"
  by (induction d arbitrary: w) (simp_all add: elapse_ms_callbacks)

lemma set_alert_callbacks:
  "filter is_alert_callback (calls (set_alert L w)) = filter is_alert_callback (calls w)"
  by (simp add: set_alert_def Let_def)

lemma flash_tick_expiry:
  "alert_flash_counter w \<le> 1 \<Longrightarrow>
     alert_level (flash_tick w) = None \<and> \<not> active (flash_timer (flash_tick w)) \<and>
     calls (flash_tick w) = calls w @ [TimerStop, Repaint]"
  by (simp add: flash_tick_def Let_def timer_stop_def)

text \<open>One millisecond before the end the counter is 1 and the next timeout is due.\<close>

lemma last_ms:
  assumes "flash_ok w" "active (flash_timer w)" "alert_ms_left w = 1"
  shows "alert_flash_counter w = 1"
    and "remaining (flash_timer w) = 1"
    and "elapse_ms w = flash_tick (w\<lparr>flash_timer := (flash_timer w)\<lparr>remaining := 100\<rparr>\<rparr>)"
proof -
  have a: "(alert_flash_counter w - 1) * 100 + remaining (flash_timer w) = 1"
    "1 \<le> remaining (flash_timer w)" "remaining (flash_timer w) \<le> 100"
    "1 \<le> alert_flash_counter w" "interval (flash_timer w) = 100"
    using assms by (auto simp: alert_ms_left_def flash_ok_def)
  show c: "alert_flash_counter w = 1" using a by presburger
  show r: "remaining (flash_timer w) = 1" using a c by simp
  show "elapse_ms w = flash_tick (w\<lparr>flash_timer := (flash_timer w)\<lparr>remaining := 100\<rparr>\<rparr>)"
    using assms(2) r a(5) by (simp add: elapse_ms_def Let_def)
qed

lemma widget0_idle: "\<not> active (flash_timer widget0)" "calls widget0 = []"
  by (simp_all add: widget0_def WindowPreviewWidget_init_def QTimer_def)

lemma triggered_widget0:
  "flash_ok (set_alert HIGH widget0)"
  "active (flash_timer (set_alert HIGH widget0))"
  "alert_ms_left (set_alert HIGH widget0) = 3000"
proof -
  have "flash_ok widget0" using widget0_idle by (simp add: flash_ok_def)
  then show "flash_ok (set_alert HIGH widget0)"
    "active (flash_timer (set_alert HIGH widget0))"
    "alert_ms_left (set_alert HIGH widget0) = 3000"
    using widget0_idle by (simp_all add: set_alert_ok set_alert_facts set_alert_ms_left)
qed

lemma triggered_widget0_2999:
  "flash_ok (elapse 2999 (set_alert HIGH widget0))"
  "active (flash_timer (elapse 2999 (set_alert HIGH widget0)))"
  "alert_level (elapse 2999 (set_alert HIGH widget0)) = Some HIGH"
  "alert_ms_left (elapse 2999 (set_alert HIGH widget0)) = 1"
  using elapse_before [OF triggered_widget0(1,2), of 2999] triggered_widget0(3)
  by (simp_all add: set_alert_facts)

text \<open>
  C4, as the spec states it, fails: a widget triggered with HIGH is still HIGH after
  2999 ms and without alert after 3000 ms; the calls it makes at that transition are the
  stop of the flash timer and the repaint request, and from the trigger to the end it
  makes no call that delivers an alert, so none with severity NONE either.
\<close>

theorem C4_idle_transition_counterexample:
  "alert_level (elapse 2999 (set_alert HIGH widget0)) = Some HIGH \<and>
   alert_level (elapse 3000 (set_alert HIGH widget0)) = None \<and>
   calls_between (elapse 2999 (set_alert HIGH widget0)) (elapse 3000 (set_alert HIGH widget0)) =
     [TimerStop, Repaint] \<and>
   filter is_alert_callback (calls (elapse 3000 (set_alert HIGH widget0))) = []"
proof -
  let ?w1 = "set_alert HIGH widget0"
  let ?v = "elapse 2999 ?w1"
  have e: "elapse 3000 ?w1 = elapse_ms ?v"
    using elapse_Suc_right [of 2999 ?w1] by simp
  have c: "calls (elapse_ms ?v) = calls ?v @ [TimerStop, Repaint]"
    using last_ms [OF triggered_widget0_2999(1,2,4)] by (simp add: flash_tick_def Let_def)
  have n: "alert_level (elapse 3000 ?w1) = None"
    using elapse_expiry [OF triggered_widget0(1,2), of 3000] triggered_widget0(3) by simp
  show ?thesis
    using triggered_widget0_2999(3) n c e widget0_idle(2)
    by (simp add: calls_between_def elapse_callbacks set_alert_callbacks)
qed

subsection \<open>Re-triggering an alert\<close>

lemma flash_timeout_step:
  assumes "active (flash_timer w)"
  shows "alert_flash_counter (flash_timeout w) = alert_flash_counter w - 1"
    and "active (flash_timer (flash_timeout w)) = (1 < alert_flash_counter w)"
    and "alert_level (flash_timeout w) =
           (if 1 < alert_flash_counter w then alert_level w else None)"
  using assms by (auto simp: flash_timeout_def flash_tick_def Let_def timer_stop_def)

lemma timeouts_Suc_right: "timeouts (Suc n) w = flash_timeout (timeouts n w)"
  by (induction n arbitrary: w) simp_all

text \<open>Fewer timeouts than the counter says leave the alert as it is.\<close>

lemma timeouts_before:
  "active (flash_timer w) \<Longrightarrow> int n < alert_flash_counter w \<Longrightarrow>
     active (flash_timer (timeouts n w)) \<and> alert_level (timeouts n w) = alert_level w \<and>
     alert_flash_counter (timeouts n w) = alert_flash_counter w - int n"
proof (induction n arbitrary: w)
  case 0
  then show ?case by simp
next
  case (Suc n)
  have c: "1 < alert_flash_counter w" using Suc.prems(2) by simp
  have st: "active (flash_timer (flash_timeout w))"
    "alert_level (flash_timeout w) = alert_level w"
    "alert_flash_counter (flash_timeout w) = alert_flash_counter w - 1"
    using flash_timeout_step [OF Suc.prems(1)] c by simp_all
  have "int n < alert_flash_counter (flash_timeout w)" using Suc.prems(2) st(3) by simp
  from Suc.IH [OF st(1) this] show ?case using st by simp
qed

text \<open>As many timeouts as the counter says clear the level and stop the timer.\<close>

lemma timeouts_expiry:
  assumes "active (flash_timer w)" "int (Suc k) = alert_flash_counter w"
  shows "alert_level (timeouts (Suc k) w) = None \<and>
         \<not> active (flash_timer (timeouts (Suc k) w))"
proof -
  have "int k < alert_flash_counter w" using assms(2) by simp
  from timeouts_before [OF assms(1) this]
  have v: "active (flash_timer (timeouts k w))" "alert_flash_counter (timeouts k w) = 1"
    using assms(2) by simp_all
  show ?thesis
    using flash_timeout_step [OF v(1)] v(2) unfolding timeouts_Suc_right by simp
qed

text \<open>
  The two views agree: in nominal time the next timeout is served when the time to it has
  passed.
\<close>

lemma elapse_within:
  "active (flash_timer w) \<Longrightarrow> int j < remaining (flash_timer w) \<Longrightarrow>
     elapse j w =
       w\<lparr>flash_timer := (flash_timer w)\<lparr>remaining := remaining (flash_timer w) - int j\<rparr>\<rparr>"
proof (induction j arbitrary: w)
  case 0
  then show ?case by simp
next
  case (Suc j)
  let ?w = "w\<lparr>flash_timer := (flash_timer w)\<lparr>remaining := remaining (flash_timer w) - 1\<rparr>\<rparr>"
  have e: "elapse_ms w = ?w" using Suc.prems by (simp add: elapse_ms_def Let_def)
  have "active (flash_timer ?w)" "int j < remaining (flash_timer ?w)"
    using Suc.prems by simp_all
  from Suc.IH [OF this] show ?case by (simp add: e)
qed

lemma elapse_to_timeout:
  assumes "active (flash_timer w)" "int (Suc j) = remaining (flash_timer w)"
  shows "elapse (Suc j) w = flash_timeout w"
proof -
  have "int j < remaining (flash_timer w)" using assms(2) by simp
  from elapse_within [OF assms(1) this]
  have "elapse (Suc j) w =
      elapse_ms
        (w\<lparr>flash_timer :=
             (flash_timer w)\<lparr>remaining := remaining (flash_timer w) - int j\<rparr>\<rparr>)"
    unfolding elapse_Suc_right by simp
  also have "\<dots> = flash_timeout w"
    using assms by (simp add: elapse_ms_def flash_timeout_def Let_def)
  finally show ?thesis .
qed

text \<open>After a trigger the level lasts for 29 timeouts and goes at the 30th.\<close>

lemma set_alert_thirty_before:
  "\<forall>n<30. alert_level (timeouts n (set_alert L u)) = Some L \<and>
          active (flash_timer (timeouts n (set_alert L u)))"
proof (intro allI impI)
  fix n :: nat
  assume "n < 30"
  then have "int n < alert_flash_counter (set_alert L u)" by (simp add: set_alert_facts)
  from timeouts_before [OF set_alert_facts(3) this]
  show "alert_level (timeouts n (set_alert L u)) = Some L \<and>
      active (flash_timer (timeouts n (set_alert L u)))"
    by (simp add: set_alert_facts)
qed

lemma set_alert_thirty_expiry:
  "alert_level (timeouts 30 (set_alert L u)) = None \<and>
   \<not> active (flash_timer (timeouts 30 (set_alert L u)))"
proof -
  have "int (Suc 29) = alert_flash_counter (set_alert L u)" by (simp add: set_alert_facts)
  from timeouts_expiry [OF set_alert_facts(3) this] show ?thesis by simp
qed

lemma set_alert_keeps_timer:
  "active (flash_timer w) \<Longrightarrow> flash_timer (set_alert L w) = flash_timer w"
  by (simp add: set_alert_def Let_def)

text \<open>A widget triggered with HIGH, 1550 ms later: 50 ms before the 16th timeout.\<close>

lemma retriggered_1550:
  "flash_ok (elapse 1550 (set_alert HIGH widget0))"
  "active (flash_timer (elapse 1550 (set_alert HIGH widget0)))"
  "alert_level (elapse 1550 (set_alert HIGH widget0)) = Some HIGH"
  "remaining (flash_timer (elapse 1550 (set_alert HIGH widget0))) = 50"
proof -
  let ?v = "elapse 1550 (set_alert HIGH widget0)"
  have v: "flash_ok ?v" "active (flash_timer ?v)" "alert_level ?v = Some HIGH"
    "alert_ms_left ?v = 1450"
    using elapse_before [OF triggered_widget0(1,2), of 1550] triggered_widget0(3)
    by (simp_all add: set_alert_facts)
  show "flash_ok ?v" "active (flash_timer ?v)" "alert_level ?v = Some HIGH" by (rule v)+
  have "(alert_flash_counter ?v - 1) * 100 + remaining (flash_timer ?v) = 1450"
    "1 \<le> remaining (flash_timer ?v)" "remaining (flash_timer ?v) \<le> 100"
    using v by (auto simp: alert_ms_left_def flash_ok_def)
  then show "remaining (flash_timer ?v) = 50" by presburger
qed

text \<open>
  C3, as the spec states it, fails: a target triggered with HIGH at 0 ms is ACTIVE at
  1550 ms; triggered there with MEDIUM it has 2950 ms left, not the full 3000 ms: it is
  MEDIUM 2949 ms after the second trigger and IDLE 2950 ms after it, at 4500 ms and not at
  4550 ms. The second trigger falls between two timeouts, so the order in which a timeout
  and a trigger are served plays no part.
\<close>

theorem C3_retrigger_counterexample:
  "alert_level (elapse 1550 (set_alert HIGH widget0)) = Some HIGH \<and>
   alert_level (set_alert MEDIUM (elapse 1550 (set_alert HIGH widget0))) = Some MEDIUM \<and>
   alert_ms_left (set_alert MEDIUM (elapse 1550 (set_alert HIGH widget0))) = 2950 \<and>
   alert_level (elapse 2949 (set_alert MEDIUM (elapse 1550 (set_alert HIGH widget0)))) =
     Some MEDIUM \<and>
   alert_level (elapse 2950 (set_alert MEDIUM (elapse 1550 (set_alert HIGH widget0)))) = None"
proof -
  let ?v = "elapse 1550 (set_alert HIGH widget0)"
  have l: "alert_ms_left (set_alert MEDIUM ?v) = 2950"
    using set_alert_ms_left [OF retriggered_1550(1), of MEDIUM] retriggered_1550(2,4) by simp
  show ?thesis
    using retrigger_window [OF retriggered_1550(1,2), of 2949 MEDIUM]
      retrigger_window [OF retriggered_1550(1,2), of 2950 MEDIUM]
      retriggered_1550(3,4) l
    by (simp add: set_alert_facts)
qed

text \<open>
  C3, amended: \<open>set_alert\<close> stores the new level and sets the counter to 30 whatever the
  state of the widget, so also when an alert is active, and it leaves a running flash
  timer as it is. The target then keeps the new level through the next 29 timeouts of the
  flash timer and loses it at the 30th, where the timer stops. With HIGH triggered first
  and MEDIUM after the 15th timeout, the target is HIGH at the 15th timeout, MEDIUM at the
  30th and idle at the 45th; with MEDIUM before the 15th timeout is served, it is idle at
  the 44th. In nominal time, an active target with a well-formed flash timer keeps the
  new level for less than 2900 ms plus the time to the next timeout and loses it exactly
  then, which is at most 3000 ms after the trigger.
\<close>

theorem C3_retrigger_thirty_timeouts:
  assumes "flash_ok w" and "active (flash_timer w)"
  shows "alert_level (set_alert level v) = Some level \<and>
         alert_flash_counter (set_alert level v) = 30 \<and>
         active (flash_timer (set_alert level v)) \<and>
         (\<forall>n<30. alert_level (timeouts n (set_alert level v)) = Some level \<and>
                 active (flash_timer (timeouts n (set_alert level v)))) \<and>
         alert_level (timeouts 30 (set_alert level v)) = None \<and>
         \<not> active (flash_timer (timeouts 30 (set_alert level v))) \<and>
         alert_level (timeouts 15 (set_alert HIGH x)) = Some HIGH \<and>
         alert_level (timeouts 15 (set_alert MEDIUM (timeouts 15 (set_alert HIGH x)))) =
           Some MEDIUM \<and>
         alert_level (timeouts 30 (set_alert MEDIUM (timeouts 15 (set_alert HIGH x)))) =
           None \<and>
         alert_level (timeouts 30 (set_alert MEDIUM (timeouts 14 (set_alert HIGH x)))) =
           None \<and>
         flash_timer (set_alert level w) = flash_timer w \<and>
         (\<forall>d. int d < 2900 + remaining (flash_timer w) \<longrightarrow>
              alert_level (elapse d (set_alert level w)) = Some level) \<and>
         (\<forall>d. int d = 2900 + remaining (flash_timer w) \<longrightarrow>
              alert_level (elapse d (set_alert level w)) = None) \<and>
         2900 + remaining (flash_timer w) \<le> 3000"
proof -
  have "(15::nat) < 30" by simp
  then have mid: "alert_level (timeouts 15 (set_alert HIGH x)) = Some HIGH"
    "alert_level (timeouts 15 (set_alert MEDIUM (timeouts 15 (set_alert HIGH x)))) =
       Some MEDIUM"
    using set_alert_thirty_before by blast+
  have le: "2900 + remaining (flash_timer w) \<le> 3000"
    using assms by (simp add: flash_ok_def)
  show ?thesis
    using set_alert_thirty_before [of level v] set_alert_thirty_expiry [of level v]
      set_alert_thirty_expiry [of MEDIUM "timeouts 15 (set_alert HIGH x)"]
      set_alert_thirty_expiry [of MEDIUM "timeouts 14 (set_alert HIGH x)"] mid le
      retrigger_window [OF assms, of _ level] set_alert_keeps_timer [OF assms(2), of level]
    by (simp add: set_alert_facts)
qed

theorem C3_retrigger_witness:
  "flash_ok (elapse 1550 (set_alert HIGH widget0)) \<and>
   active (flash_timer (elapse 1550 (set_alert HIGH widget0))) \<and>
   alert_level (timeouts 29 (set_alert MEDIUM (elapse 1550 (set_alert HIGH widget0)))) =
     Some MEDIUM \<and>
   alert_level (timeouts 30 (set_alert MEDIUM (elapse 1550 (set_alert HIGH widget0)))) = None \<and>
   alert_level (elapse 2949 (set_alert MEDIUM (elapse 1550 (set_alert HIGH widget0)))) =
     Some MEDIUM \<and>
   alert_level (elapse 2950 (set_alert MEDIUM (elapse 1550 (set_alert HIGH widget0)))) = None"
proof -
  let ?w = "elapse 1550 (set_alert HIGH widget0)"
  have a: "(29::nat) < 30" by simp
  have b: "int 2949 < 2900 + remaining (flash_timer ?w)"
    "int 2950 = 2900 + remaining (flash_timer ?w)"
    using retriggered_1550(4) by simp_all
  from C3_retrigger_thirty_timeouts
    [OF retriggered_1550(1,2), where level = MEDIUM and v = ?w and x = widget0] a b
    retriggered_1550(1,2)
  show ?thesis by blast
qed

subsection \<open>Processing one result\<close>

lemma registered_updates [simp]:
  "registered (s\<lparr>trace := t\<rparr>) w = registered s w"
  "registered (s\<lparr>pending_requests := p\<rparr>) w = registered s w"
  "registered (s\<lparr>capture_system := b\<rparr>) w = registered s w"
  "registered (s\<lparr>alert_detector := d\<rparr>) w = registered s w"
  by (simp_all add: registered_def)

lemma new_events_append: "trace s' = trace s @ es \<Longrightarrow> new_events s s' = es"
  by (simp add: new_events_def)

lemma process_result_trace:
  "trace (process_result C r s) = trace s @ result_events C r s"
  by (auto simp: process_result_def result_events_def Let_def registered_def
      split: option.splits sum.splits prod.splits)

lemma process_result_capture_system [simp]:
  "capture_system (process_result C r s) = capture_system s"
  by (auto simp: process_result_def Let_def split: option.splits sum.splits prod.splits)

lemma map_fst_map_entry [simp]: "map fst (AList.map_entry k f xs) = map fst xs"
  by (induction xs) auto

lemma process_result_keys [simp]:
  "map fst (preview_frames (process_result C r s)) = map fst (preview_frames s)"
  by (auto simp: process_result_def Let_def split: option.splits sum.splits prod.splits)

lemma process_result_registered [simp]:
  "registered (process_result C r s) w = registered s w"
  by (simp add: registered_def)

lemma process_result_unregistered:
  "\<not> registered s wid \<Longrightarrow>
     process_result C (rid, wid, img) s =
       s\<lparr>pending_requests := (pending_requests s)(rid := None)\<rparr>"
  by (simp add: process_result_def Let_def)

lemma process_result_pending:
  "pending_requests (process_result C r s) = (pending_requests s)(fst r := None)"
  by (auto simp: process_result_def Let_def split: option.splits sum.splits prod.splits)

lemma process_result_pending_indep:
  "process_result C r (s\<lparr>pending_requests := p\<rparr>) =
     (process_result C r s)\<lparr>pending_requests := p(fst r := None)\<rparr>"
  by (auto simp: process_result_def Let_def split: option.splits sum.splits prod.splits)

lemma result_events_registered:
  "result_events C r s \<noteq> [] \<Longrightarrow> registered s (fst (snd r))"
  by (simp add: result_events_def Let_def split: if_splits)

lemma result_events_about:
  "e \<in> set (result_events C r s) \<Longrightarrow> e = Log ERROR \<or> event_window e = Some (fst (snd r))"
proof (cases "snd (snd r)")
  case None
  assume "e \<in> set (result_events C r s)"
  then show ?thesis using None by (simp add: result_events_def Let_def split: if_splits)
next
  case (Some im)
  assume e: "e \<in> set (result_events C r s)"
  show ?thesis
  proof (cases "fst (analyze_frame C (alert_detector s) (fst (snd r)) im)")
    case (Inl x)
    then show ?thesis using e Some
      by (auto simp: result_events_def Let_def split: if_splits)
  next
    case (Inr lv)
    then show ?thesis using e Some
      by (cases lv) (auto simp: result_events_def Let_def split: if_splits)
  qed
qed

lemma result_events_window:
  assumes "e \<in> set (result_events C r s)" "event_window e = Some w"
  shows "registered s w"
proof -
  have "result_events C r s \<noteq> []" using assms(1) by auto
  then have "registered s (fst (snd r))" by (rule result_events_registered)
  moreover have "w = fst (snd r)" using result_events_about [OF assms(1)] assms(2) by auto
  ultimately show ?thesis by simp
qed

lemma result_events_polls: "count_list (result_events C r s) GetResult = 0"
  by (auto simp: result_events_def Let_def split: option.splits sum.splits)

lemma two_windows_fields:
  "preview_frames (two_windows ids q) =
     [(''w1'', (WindowPreviewWidget_init ''w1'' ''pilot1'')\<lparr>visible := True\<rparr>),
      (''w2'', WindowPreviewWidget_init ''w2'' ''pilot2'')]"
  "capture_system (two_windows ids q) = (ids, q)"
  "pending_requests (two_windows ids q) = Map.empty"
  "alert_detector (two_windows ids q) = [''w1'', ''w2'']"
  "trace (two_windows ids q) =
     [Log INFO, RegisterCallback ''w1'', Log INFO, RegisterCallback ''w2'', Log INFO]"
  by (simp_all add: two_windows_def show_window_def add_window_def test_manager_def
      WindowManager_init_def registered_def Let_def test_collab_def setVisible_def)

text \<open>
  C4, amended: the tick of the flash timer at which the counter runs out clears the
  level and stops the timer, and the calls the widget makes there are the stop of the
  timer and a repaint request; the passing of time makes a widget deliver no alert at all.
  The alert consumer \<open>set_alert\<close> is called once for a frame of a registered window for
  which \<open>analyze_frame\<close> returns a level.
\<close>

theorem C4_idle_transition_silent:
  assumes "alert_flash_counter w \<le> 1"
    and "registered s wid"
    and "fst (analyze_frame C (alert_detector s) wid im) = Inr (Some level)"
  shows "alert_level (flash_tick w) = None \<and>
         \<not> active (flash_timer (flash_tick w)) \<and>
         calls_between w (flash_tick w) = [TimerStop, Repaint] \<and>
         filter is_alert_callback (calls (elapse d u)) = filter is_alert_callback (calls u) \<and>
         filter is_alert_callback (new_events s (process_result C (rid, wid, Some im) s)) =
           [SetAlert wid level]"
proof -
  have "new_events s (process_result C (rid, wid, Some im) s) =
          result_events C (rid, wid, Some im) s"
    by (rule new_events_append) (rule process_result_trace)
  also have "\<dots> = [UpdateFrame wid (Some im), AnalyzeFrame wid im, SetAlert wid level]"
    using assms(2,3) by (simp add: result_events_def)
  finally show ?thesis
    using flash_tick_expiry [OF assms(1)] by (simp add: calls_between_def elapse_callbacks)
qed

theorem C4_idle_transition_witness:
  "alert_flash_counter (elapse 2999 (set_alert HIGH widget0)) \<le> 1 \<and>
   registered (two_windows [] []) ''w1'' \<and>
   fst (analyze_frame test_collab (alert_detector (two_windows [] [])) ''w1'' 3) =
     Inr (Some HIGH) \<and>
   alert_level (elapse 2999 (set_alert HIGH widget0)) = Some HIGH \<and>
   alert_level (flash_tick (elapse 2999 (set_alert HIGH widget0))) = None \<and>
   calls_between (elapse 2999 (set_alert HIGH widget0))
     (flash_tick (elapse 2999 (set_alert HIGH widget0))) = [TimerStop, Repaint] \<and>
   filter is_alert_callback
     (new_events (two_windows [] [])
        (process_result test_collab (''r1'', ''w1'', Some 3) (two_windows [] []))) =
     [SetAlert ''w1'' HIGH]"
proof -
  let ?v = "elapse 2999 (set_alert HIGH widget0)"
  have h1: "alert_flash_counter ?v \<le> 1"
    using last_ms(1) [OF triggered_widget0_2999(1,2,4)] by simp
  have h2: "registered (two_windows [] []) ''w1''"
    by (simp add: registered_def two_windows_fields)
  have h3: "fst (analyze_frame test_collab (alert_detector (two_windows [] [])) ''w1'' 3) =
      Inr (Some HIGH)"
    by (simp add: test_collab_def)
  from C4_idle_transition_silent
    [OF h1 h2 h3, where rid = "''r1''" and d = 0 and u = widget0]
    h1 h2 h3 triggered_widget0_2999(3)
  show ?thesis by simp
qed

lemma delivered_iff: "delivered C r s = registered s (fst (snd r))"
  unfolding delivered_def new_events_append [OF process_result_trace]
  by (auto simp: result_events_def Let_def split: option.splits sum.splits)

text \<open>
  C9: whether the frame of a drained result is handed to a widget is decided by the
  window id in the result tuple being registered, and by nothing else: replacing the
  pending requests by any other map changes neither the decision nor anything else of the
  outcome but the pending requests themselves, from which the request id is popped.
\<close>

theorem C9_delivery_by_registration:
  "delivered C r s = registered s (fst (snd r)) \<and>
   delivered C r (s\<lparr>pending_requests := p\<rparr>) = delivered C r s \<and>
   process_result C r (s\<lparr>pending_requests := p\<rparr>) =
     (process_result C r s)\<lparr>pending_requests := p(fst r := None)\<rparr>"
  by (simp add: delivered_iff process_result_pending_indep)

text \<open>
  An instance: the result of a request id that was never recorded, for the registered
  window \<open>w1\<close>, is delivered.
\<close>

theorem C9_delivery_witness:
  "pending_requests (two_windows [] []) ''r9'' = None \<and>
   delivered test_collab (''r9'', ''w1'', Some 0) (two_windows [] []) \<and>
   \<not> delivered test_collab (''r9'', ''w3'', Some 0) (two_windows [] [])"
  using C9_delivery_by_registration
    [of test_collab "(''r9'', ''w1'', Some 0)" "two_windows [] []" Map.empty]
    C9_delivery_by_registration
    [of test_collab "(''r9'', ''w3'', Some 0)" "two_windows [] []" Map.empty]
  by (simp add: registered_def two_windows_fields)

subsection \<open>The drain loop\<close>

lemma polled_simps [simp]:
  "capture_system (polled C s) = snd (get_result C (capture_system s))"
  "trace (polled C s) = trace s @ [GetResult]"
  "preview_frames (polled C s) = preview_frames s"
  "pending_requests (polled C s) = pending_requests s"
  "alert_detector (polled C s) = alert_detector s"
  "registered (polled C s) w = registered s w"
  by (simp_all add: polled_def registered_def)

text \<open>Over a capture system with \<open>K\<close> queued results the loop returns, and is its unrolling.\<close>

lemma drain_queued:
  "queued C K (capture_system s) \<Longrightarrow> drain C n s = Some (drain_upto C K n s)"
proof (induction K arbitrary: n s)
  case 0
  obtain b where g: "get_result C (capture_system s) = (None, b)"
    using "0.prems" by (cases "get_result C (capture_system s)") simp
  show ?case
    by (subst drain.simps) (simp add: g Let_def polled_def)
next
  case (Suc K)
  obtain r b where g: "get_result C (capture_system s) = (Some r, b)" and q: "queued C K b"
    using Suc.prems
    by (cases "get_result C (capture_system s)") (auto split: option.splits)
  have "queued C K (capture_system (process_result C r (polled C s)))"
    using q g by simp
  from Suc.IH [OF this, of "n + 1"]
  have "drain C (n + 1) (process_result C r (polled C s)) =
          Some (drain_upto C (Suc K) n s)"
    by (simp add: g)
  moreover have "drain C n s = drain C (n + 1) (process_result C r (polled C s))"
    by (subst drain.simps) (simp add: g Let_def polled_def)
  ultimately show ?case by simp
qed

lemma drain_upto_trace:
  "trace (drain_upto C K n s) = trace s @ drain_events C K n s"
  by (induction K arbitrary: n s) (simp_all add: process_result_trace split: option.splits)

lemma drain_upto_registered [simp]:
  "registered (drain_upto C K n s) w = registered s w"
  by (induction K arbitrary: n s) (simp_all split: option.splits)

lemma drain_upto_pending:
  "pending_requests s k = None \<Longrightarrow> pending_requests (drain_upto C K n s) k = None"
  by (induction K arbitrary: n s) (simp_all add: process_result_pending split: option.splits)

text \<open>Every call of the loop that is about a window is about a registered one.\<close>

lemma drain_events_window:
  "e \<in> set (drain_events C K n s) \<Longrightarrow> event_window e = Some w \<Longrightarrow> registered s w"
proof (induction K arbitrary: n s)
  case 0
  then show ?case by (auto split: if_splits)
next
  case (Suc K)
  show ?case
  proof (cases "fst (get_result C (capture_system s))")
    case None
    then show ?thesis using Suc.prems by (auto split: if_splits)
  next
    case (Some r)
    from Suc.prems Some have
      "e = GetResult \<or> e \<in> set (result_events C r (polled C s)) \<or>
       e \<in> set (drain_events C K (n + 1) (process_result C r (polled C s)))"
      by auto
    then show ?thesis
    proof (elim disjE)
      assume "e = GetResult"
      then show ?thesis using Suc.prems(2) by simp
    next
      assume "e \<in> set (result_events C r (polled C s))"
      from result_events_window [OF this Suc.prems(2)] show ?thesis by simp
    next
      assume "e \<in> set (drain_events C K (n + 1) (process_result C r (polled C s)))"
      from Suc.IH [OF this Suc.prems(2)] show ?thesis by simp
    qed
  qed
qed

lemma count_list_append: "count_list (xs @ ys) x = count_list xs x + count_list ys x"
  by (induction xs) auto

lemma drain_events_polls:
  "queued C K (capture_system s) \<Longrightarrow> count_list (drain_events C K n s) GetResult = K + 1"
proof (induction K arbitrary: n s)
  case 0
  then show ?case by simp
next
  case (Suc K)
  obtain r where g: "fst (get_result C (capture_system s)) = Some r"
    and q: "queued C K (snd (get_result C (capture_system s)))"
    using Suc.prems by (auto split: option.splits)
  have "queued C K (capture_system (process_result C r (polled C s)))" using q by simp
  from Suc.IH [OF this, of "n + 1"] show ?case
    using g by (simp add: count_list_append result_events_polls)
qed

lemma in_flight_fields:
  "preview_frames in_flight = preview_frames (two_windows [] [])"
  "capture_system in_flight = ([], [(''r1'', ''w1'', Some 3), (''r2'', ''w2'', Some 2)])"
  "pending_requests in_flight = [''r1'' \<mapsto> ''w1'', ''r2'' \<mapsto> ''w2'']"
  by (simp_all add: in_flight_def two_windows_fields)

text \<open>
  C6: over a capture system whose poll returns exactly \<open>K\<close> results and then nothing, the
  drain loop of one tick returns, and it has polled \<open>K + 1\<close> times.
\<close>

theorem C6_drain_polls:
  assumes "queued C K (capture_system s)"
  shows "\<exists>s'. process_capture_results C s = Some s' \<and>
           count_list (new_events s s') GetResult = K + 1"
proof -
  let ?s' = "drain_upto C K 0 s"
  have ret: "process_capture_results C s = Some ?s'"
    unfolding process_capture_results_def by (rule drain_queued [OF assms])
  have ev: "new_events s ?s' = drain_events C K 0 s"
    by (rule new_events_append) (rule drain_upto_trace)
  show ?thesis using ret drain_events_polls [OF assms, of 0] by (simp add: ev)
qed

theorem C6_drain_witness:
  "queued test_collab (Suc (Suc 0)) (capture_system in_flight) \<and>
   (\<exists>s'. process_capture_results test_collab in_flight = Some s' \<and>
      count_list (new_events in_flight s') GetResult = 3)"
proof -
  have h: "queued test_collab (Suc (Suc 0)) (capture_system in_flight)"
    by (simp add: in_flight_fields test_collab_def)
  from C6_drain_polls [OF h] h show ?thesis by (auto simp: numeral_3_eq_3)
qed

subsection \<open>Removal while a request is in flight\<close>

lemma delete_not_key: "k \<notin> fst ` set (AList.delete k xs)"
  by (induction xs) auto

lemma remove_window_unregistered: "\<not> registered (remove_window C wid s) wid"
  by (simp add: remove_window_def registered_def delete_not_key)

lemma remove_window_keeps:
  "pending_requests (remove_window C wid s) = pending_requests s"
  "capture_system (remove_window C wid s) = capture_system s"
  by (simp_all add: remove_window_def)

text \<open>
  C2: \<open>remove_window\<close> leaves the id unregistered and the pending requests as they
  were. When the drain loop then polls the result of a request of a window that is not
  registered, processing that result changes nothing but the pending requests, from which
  the request id is popped; and with \<open>K\<close> more results queued behind it the loop returns
  after \<open>K + 2\<close> polls, having made no call that is about the removed window.
\<close>

theorem C2_orphan_result_dropped:
  assumes "\<not> registered s wid"
    and "get_result C (capture_system s) = (Some (rid, wid, img), b)"
    and "queued C K b"
  shows "\<not> registered (remove_window C wid s0) wid \<and>
         pending_requests (remove_window C wid s0) = pending_requests s0 \<and>
         process_result C (rid, wid, img) s =
           s\<lparr>pending_requests := (pending_requests s)(rid := None)\<rparr> \<and>
         (\<exists>s'. process_capture_results C s = Some s' \<and>
            (\<forall>e\<in>set (new_events s s'). event_window e \<noteq> Some wid) \<and>
            \<not> registered s' wid \<and> pending_requests s' rid = None \<and>
            count_list (new_events s s') GetResult = K + 2)"
proof -
  have q: "queued C (Suc K) (capture_system s)" using assms(2,3) by simp
  let ?s' = "drain_upto C (Suc K) 0 s"
  have ret: "process_capture_results C s = Some ?s'"
    unfolding process_capture_results_def by (rule drain_queued [OF q])
  have ev: "new_events s ?s' = drain_events C (Suc K) 0 s"
    by (rule new_events_append) (rule drain_upto_trace)
  have no: "\<forall>e\<in>set (new_events s ?s'). event_window e \<noteq> Some wid"
    unfolding ev using drain_events_window assms(1) by blast
  have cnt: "count_list (new_events s ?s') GetResult = K + 2"
    using drain_events_polls [OF q, of 0] unfolding ev
    by (simp del: drain_events.simps)
  have pend: "pending_requests ?s' rid = None"
    using assms(2) by (simp add: drain_upto_pending process_result_pending)
  have reg: "\<not> registered ?s' wid"
    unfolding drain_upto_registered by (rule assms(1))
  show ?thesis
    using ret no cnt pend reg remove_window_unregistered [of C wid s0]
      process_result_unregistered [OF assms(1), of C rid img]
    by (simp add: remove_window_keeps)
qed

theorem C2_orphan_witness:
  "\<not> registered (remove_window test_collab ''w1'' in_flight) ''w1'' \<and>
   get_result test_collab (capture_system (remove_window test_collab ''w1'' in_flight)) =
     (Some (''r1'', ''w1'', Some 3), ([], [(''r2'', ''w2'', Some 2)])) \<and>
   queued test_collab (Suc 0) ([], [(''r2'', ''w2'', Some 2)]) \<and>
   pending_requests (remove_window test_collab ''w1'' in_flight) ''r1'' = Some ''w1'' \<and>
   (\<exists>s'. process_capture_results test_collab (remove_window test_collab ''w1'' in_flight) =
            Some s' \<and>
      (\<forall>e\<in>set (new_events (remove_window test_collab ''w1'' in_flight) s').
          event_window e \<noteq> Some ''w1'') \<and>
      pending_requests s' ''r1'' = None \<and>
      count_list (new_events (remove_window test_collab ''w1'' in_flight) s') GetResult = 3)"
proof -
  let ?s = "remove_window test_collab ''w1'' in_flight"
  have h1: "\<not> registered ?s ''w1''" by (rule remove_window_unregistered)
  have h2: "get_result test_collab (capture_system ?s) =
     (Some (''r1'', ''w1'', Some 3), ([], [(''r2'', ''w2'', Some 2)]))"
    by (simp add: remove_window_keeps in_flight_fields test_collab_def)
  have h3: "queued test_collab (Suc 0) ([], [(''r2'', ''w2'', Some 2)])"
    by (simp add: test_collab_def)
  have p: "pending_requests ?s ''r1'' = Some ''w1''"
    by (simp add: remove_window_keeps in_flight_fields)
  from C2_orphan_result_dropped [OF h1 h2 h3, where ?s0.0 = in_flight] h1 h2 h3 p
  show ?thesis by (auto simp: numeral_3_eq_3)
qed

subsection \<open>Adding a window twice\<close>

lemma add_window_registers: "registered (snd (add_window C wid name s)) wid"
  by (auto simp: add_window_def registered_def Let_def dom_update)

lemma add_window_rejects:
  "registered s wid \<Longrightarrow>
     add_window C wid name s = (None, s\<lparr>trace := trace s @ [Log WARNING]\<rparr>)"
  by (simp add: add_window_def)

text \<open>
  C7: \<open>add_window\<close> for an id that is registered returns \<open>None\<close> and no exception; the
  previews (their number and every widget) and the alert detector stay as they were, and
  the only call made is the warning of the logger, so no callback is registered. After any
  \<open>add_window\<close> for an id the id is registered, so a second one for it is rejected in
  this way.
\<close>

theorem C7_duplicate_add_rejected:
  assumes "registered s wid"
  shows "fst (add_window C wid name s) = None \<and>
         preview_frames (snd (add_window C wid name s)) = preview_frames s \<and>
         get_active_window_count (snd (add_window C wid name s)) = get_active_window_count s \<and>
         alert_detector (snd (add_window C wid name s)) = alert_detector s \<and>
         new_events s (snd (add_window C wid name s)) = [Log WARNING] \<and>
         registered (snd (add_window C wid' name1 s0)) wid' \<and>
         fst (add_window C wid' name2 (snd (add_window C wid' name1 s0))) = None"
  using add_window_rejects [OF assms, of C name]
    add_window_rejects [OF add_window_registers [of C wid' name1 s0], of C name2]
  by (simp add: get_active_window_count_def new_events_def add_window_registers)

theorem C7_duplicate_add_witness:
  "registered (two_windows [] []) ''w1'' \<and>
   fst (add_window test_collab ''w1'' ''pilot1'' (two_windows [] [])) = None \<and>
   get_active_window_count
     (snd (add_window test_collab ''w1'' ''pilot1'' (two_windows [] []))) = 2 \<and>
   alert_detector (snd (add_window test_collab ''w1'' ''pilot1'' (two_windows [] []))) =
     [''w1'', ''w2'']"
proof -
  have h: "registered (two_windows [] []) ''w1''"
    by (simp add: registered_def two_windows_fields)
  from C7_duplicate_add_rejected
    [OF h, where C = test_collab and name = "''pilot1''" and wid' = "''w1''"
       and ?name1.0 = "''pilot1''" and ?name2.0 = "''pilot1''" and ?s0.0 = "two_windows [] []"] h
  show ?thesis
    by (simp add: get_active_window_count_def two_windows_fields)
qed

subsection \<open>The alert callback\<close>

lemma alert_callback_trace:
  "new_events s (alert_callback wid level s) =
     (if registered s wid then [AlertCallback wid level, SetAlert wid level]
      else [AlertCallback wid level])"
  by (simp add: alert_callback_def Let_def new_events_def)

lemma map_of_map_entry_other:
  "k' \<noteq> k \<Longrightarrow> map_of (AList.map_entry k f xs) k' = map_of xs k'"
  by (induction xs) auto

lemma map_of_map_entry_same:
  "map_of (AList.map_entry k f xs) k = map_option f (map_of xs k)"
  by (induction xs) auto

lemma alert_callback_unregistered:
  "\<not> registered s wid \<Longrightarrow>
     alert_callback wid level s = s\<lparr>trace := trace s @ [AlertCallback wid level]\<rparr>"
  by (simp add: alert_callback_def Let_def)

text \<open>
  C10: the alert callback of a window id that is not registered when it is called
  changes nothing (the trace records that it was called) and that is so after
  \<open>remove_window\<close> for the id. In any state the callback calls \<open>set_alert\<close> exactly when
  the id is registered, on the widget stored under the id and on no other.
\<close>

theorem C10_callback_guarded:
  assumes "\<not> registered s wid"
  shows "alert_callback wid level s = s\<lparr>trace := trace s @ [AlertCallback wid level]\<rparr> \<and>
         alert_callback wid level (remove_window C wid s0) =
           (remove_window C wid s0)
             \<lparr>trace := trace (remove_window C wid s0) @ [AlertCallback wid level]\<rparr> \<and>
         (SetAlert wid level \<in> set (new_events s1 (alert_callback wid level s1))) =
           registered s1 wid \<and>
         map_of (preview_frames (alert_callback wid level s1)) wid =
           map_option (set_alert level) (map_of (preview_frames s1) wid) \<and>
         (wid' = wid \<or>
          map_of (preview_frames (alert_callback wid level s1)) wid' =
            map_of (preview_frames s1) wid')"
proof -
  have a: "map_of (preview_frames (alert_callback wid level s1)) wid =
     map_option (set_alert level) (map_of (preview_frames s1) wid)"
    by (auto simp: alert_callback_def Let_def map_of_map_entry_same registered_def
        map_of_eq_None_iff [THEN iffD2])
  have b: "wid' = wid \<or> map_of (preview_frames (alert_callback wid level s1)) wid' =
      map_of (preview_frames s1) wid'"
    by (cases "wid' = wid") (simp_all add: alert_callback_def Let_def map_of_map_entry_other)
  show ?thesis
    using alert_callback_unregistered [OF assms, of level]
      alert_callback_unregistered [OF remove_window_unregistered [of C wid s0], of level] a b
    by (simp add: alert_callback_trace)
qed

theorem C10_callback_witness:
  "\<not> registered (remove_window test_collab ''w1'' (two_windows [] [])) ''w1'' \<and>
   preview_frames
     (alert_callback ''w1'' HIGH (remove_window test_collab ''w1'' (two_windows [] []))) =
     [(''w2'', WindowPreviewWidget_init ''w2'' ''pilot2'')] \<and>
   new_events (remove_window test_collab ''w1'' (two_windows [] []))
     (alert_callback ''w1'' HIGH (remove_window test_collab ''w1'' (two_windows [] []))) =
     [AlertCallback ''w1'' HIGH]"
proof -
  let ?s = "remove_window test_collab ''w1'' (two_windows [] [])"
  have h: "\<not> registered ?s ''w1''" by (rule remove_window_unregistered)
  have f: "preview_frames ?s = [(''w2'', WindowPreviewWidget_init ''w2'' ''pilot2'')]"
    by (simp add: remove_window_def registered_def two_windows_fields)
  from C10_callback_guarded
    [OF h, where level = HIGH and C = test_collab and ?s0.0 = "two_windows [] []"
       and ?s1.0 = "two_windows [] []" and wid' = "''w1''"] h f
  show ?thesis by (simp add: new_events_def)
qed

subsection \<open>Submitting captures\<close>

lemma both_visible_fields:
  "preview_frames both_visible =
     [(''w1'', (WindowPreviewWidget_init ''w1'' ''pilot1'')\<lparr>visible := True\<rparr>),
      (''w2'', (WindowPreviewWidget_init ''w2'' ''pilot2'')\<lparr>visible := True\<rparr>)]"
  "capture_system both_visible = ([''r1'', ''r1''], [])"
  "pending_requests both_visible = Map.empty"
  "trace both_visible = trace (two_windows [] [])"
  by (simp_all add: both_visible_def show_window_def two_windows_fields setVisible_def)

text \<open>
  C5, as the spec states it, fails: when the capture system hands out the request id
  \<open>r1\<close> for \<open>w1\<close> and again for \<open>w2\<close>, the entry \<open>r1 -> w1\<close> is replaced by
  \<open>r1 -> w2\<close>, and the calls of the whole submission loop are the two submissions:
  nothing is logged.
\<close>

theorem C5_duplicate_counterexample:
  "pending_requests
     (request_capture test_collab (preview_frames both_visible ! 0) both_visible) ''r1'' =
     Some ''w1'' \<and>
   pending_requests
     (request_capture test_collab (preview_frames both_visible ! 1)
        (request_capture test_collab (preview_frames both_visible ! 0) both_visible)) ''r1'' =
     Some ''w2'' \<and>
   new_events both_visible (request_captures test_collab both_visible) =
     [CaptureWindowAsync ''w1'' (3 / 10), CaptureWindowAsync ''w2'' (3 / 10)] \<and>
   pending_requests (request_captures test_collab both_visible) = [''r1'' \<mapsto> ''w2'']"
  by (simp add: request_captures_def request_capture_def both_visible_fields test_collab_def
      WindowPreviewWidget_init_def new_events_def Let_def two_windows_fields)

text \<open>
  C5, amended: when the capture system returns a request id for a visible window, the
  pending requests map that id to the window afterwards, whether or not the id was
  present before, and the submission is the only call made: no log entry.
\<close>

theorem C5_record_overwrites:
  assumes "visible (snd item)"
    and "capture_window_async C (capture_system s) (fst item) (zoom_factor (snd item)) =
           (Inr request_id, b)"
  shows "pending_requests (request_capture C item s) =
           (pending_requests s)(request_id \<mapsto> fst item) \<and>
         new_events s (request_capture C item s) =
           [CaptureWindowAsync (fst item) (zoom_factor (snd item))] \<and>
         preview_frames (request_capture C item s) = preview_frames s"
  using assms by (simp add: request_capture_def Let_def new_events_def)

theorem C5_record_witness:
  "visible (snd (preview_frames both_visible ! 1)) \<and>
   capture_window_async test_collab
     (capture_system
        (request_capture test_collab (preview_frames both_visible ! 0) both_visible))
     (fst (preview_frames both_visible ! 1))
     (zoom_factor (snd (preview_frames both_visible ! 1))) = (Inr ''r1'', ([], [])) \<and>
   pending_requests
     (request_capture test_collab (preview_frames both_visible ! 0) both_visible) ''r1'' =
     Some ''w1'' \<and>
   pending_requests
     (request_capture test_collab (preview_frames both_visible ! 1)
        (request_capture test_collab (preview_frames both_visible ! 0) both_visible)) =
     [''r1'' \<mapsto> ''w2''] \<and>
   new_events (request_capture test_collab (preview_frames both_visible ! 0) both_visible)
     (request_capture test_collab (preview_frames both_visible ! 1)
        (request_capture test_collab (preview_frames both_visible ! 0) both_visible)) =
     [CaptureWindowAsync ''w2'' (3 / 10)]"
proof -
  let ?s1 = "request_capture test_collab (preview_frames both_visible ! 0) both_visible"
  let ?it = "preview_frames both_visible ! 1"
  have h1: "visible (snd ?it)" by (simp add: both_visible_fields)
  have s1: "capture_system ?s1 = ([''r1''], [])" "pending_requests ?s1 = [''r1'' \<mapsto> ''w1'']"
    by (simp_all add: request_capture_def both_visible_fields test_collab_def Let_def)
  have h2: "capture_window_async test_collab (capture_system ?s1) (fst ?it)
      (zoom_factor (snd ?it)) = (Inr ''r1'', ([], []))"
    unfolding s1 by (simp add: test_collab_def)
  from C5_record_overwrites [OF h1 h2] h1 h2 s1 show ?thesis
    by (simp add: both_visible_fields WindowPreviewWidget_init_def)
qed

lemma submissions_append: "submissions (xs @ ys) = submissions xs @ submissions ys"
  by (induction xs rule: submissions.induct) simp_all

lemma request_capture_submissions:
  "submissions (trace (request_capture C item s)) =
     submissions (trace s) @
     (if visible (snd item) then [(fst item, zoom_factor (snd item))] else [])"
  by (auto simp: request_capture_def Let_def submissions_append split: prod.splits sum.splits)

lemma fold_request_capture_submissions:
  "submissions (trace (fold (request_capture C) items s)) =
     submissions (trace s) @
     map (\<lambda>item. (fst item, zoom_factor (snd item)))
       (filter (\<lambda>item. visible (snd item)) items)"
  by (induction items arbitrary: s) (simp_all add: request_capture_submissions)

lemma result_events_submissions: "submissions (result_events C r s) = []"
  by (auto simp: result_events_def Let_def split: option.splits sum.splits)

lemma drain_events_submissions: "submissions (drain_events C K n s) = []"
  by (induction K arbitrary: n s)
     (simp_all add: submissions_append result_events_submissions split: option.splits)

lemma count_keys_absent:
  "k \<notin> fst ` set xs \<Longrightarrow> count_list (map fst (filter P xs)) k = 0"
  by (induction xs) auto

lemma count_visible_keys:
  "distinct (map fst xs) \<Longrightarrow>
     count_list (map fst (filter (\<lambda>item. visible (snd item)) xs)) k =
       (case map_of xs k of None \<Rightarrow> 0 | Some w \<Rightarrow> if visible w then 1 else 0)"
proof (induction xs)
  case Nil
  then show ?case by simp
next
  case (Cons x xs)
  show ?case
  proof (cases "fst x = k")
    case True
    then have "k \<notin> fst ` set xs" using Cons.prems by auto
    from count_keys_absent [OF this] True show ?thesis by (cases x) auto
  next
    case False
    then show ?thesis using Cons by (cases x) auto
  qed
qed

text \<open>
  C8: the submissions that the loop of a tick adds to the trace are those of the visible
  previews, each with its zoom factor, in the order of the dict; over a capture system
  that has finitely many results queued after them the tick returns and the drain has
  added no submission. With distinct ids (a dict) that is one submission for a window
  marked visible and none for any other window.
\<close>

theorem C8_submit_per_visible:
  assumes "queued C K (capture_system (request_captures C s))"
    and "distinct (map fst (preview_frames s))"
  shows "submissions (trace (request_captures C s)) =
           submissions (trace s) @
           map (\<lambda>item. (fst item, zoom_factor (snd item)))
             (filter (\<lambda>item. visible (snd item)) (preview_frames s)) \<and>
         (\<exists>s'. capture_cycle C s = Some s' \<and>
            submissions (trace s') = submissions (trace (request_captures C s))) \<and>
         count_list
           (map fst (filter (\<lambda>item. visible (snd item)) (preview_frames s))) wid =
           (if marked_visible s wid then 1 else 0)"
proof -
  let ?s1 = "request_captures C s"
  let ?s' = "drain_upto C K 0 ?s1"
  have ret: "capture_cycle C s = Some ?s'"
    unfolding capture_cycle_def process_capture_results_def
    by (rule drain_queued [OF assms(1)])
  have req: "submissions (trace ?s1) =
      submissions (trace s) @
      map (\<lambda>item. (fst item, zoom_factor (snd item)))
        (filter (\<lambda>item. visible (snd item)) (preview_frames s))"
    by (simp add: request_captures_def fold_request_capture_submissions)
  have sub: "submissions (trace ?s') = submissions (trace ?s1)"
    unfolding drain_upto_trace submissions_append drain_events_submissions by simp
  have cnt: "count_list (map fst (filter (\<lambda>item. visible (snd item)) (preview_frames s))) wid =
      (if marked_visible s wid then 1 else 0)"
    unfolding count_visible_keys [OF assms(2)] marked_visible_def
    by (simp split: option.splits)
  show ?thesis using ret req sub cnt by blast
qed

lemma two_windows_requested:
  "capture_system (request_captures test_collab (two_windows [''r1''] [])) = ([], [])"
  "pending_requests (request_captures test_collab (two_windows [''r1''] [])) =
     [''r1'' \<mapsto> ''w1'']"
  by (simp_all add: request_captures_def request_capture_def two_windows_fields test_collab_def
      WindowPreviewWidget_init_def Let_def)

theorem C8_submit_witness:
  "queued test_collab 0
     (capture_system (request_captures test_collab (two_windows [''r1''] []))) \<and>
   distinct (map fst (preview_frames (two_windows [''r1''] []))) \<and>
   marked_visible (two_windows [''r1''] []) ''w1'' \<and>
   \<not> marked_visible (two_windows [''r1''] []) ''w2'' \<and>
   (\<exists>s'. capture_cycle test_collab (two_windows [''r1''] []) = Some s' \<and>
      submissions (trace s') = [(''w1'', 3 / 10)])"
proof -
  let ?s = "two_windows [''r1''] []"
  have h1: "queued test_collab 0 (capture_system (request_captures test_collab ?s))"
    unfolding two_windows_requested by (simp add: test_collab_def)
  have h2: "distinct (map fst (preview_frames ?s))"
    by (simp add: two_windows_fields)
  have v: "marked_visible ?s ''w1''" "\<not> marked_visible ?s ''w2''"
    by (simp_all add: marked_visible_def two_windows_fields WindowPreviewWidget_init_def)
  from C8_submit_per_visible [OF h1 h2, of "''w1''"] h1 h2 v show ?thesis
    by (auto simp: two_windows_fields WindowPreviewWidget_init_def)
qed

end
